theory Spec2Isabelle
  imports Main "HOL-Library.Sublist"
begin

section \<open>JavaScript primitives used by the App component\<close>

text \<open>
  A JavaScript string is a sequence of code units; a \<^typ>\<open>char\<close> stands for a code unit
  below 256. Among these, \<open>String.prototype.trim\<close> removes TAB, LF, VT, FF, CR, SPACE and
  the no-break space U+00A0 from both ends.
\<close>

definition isWhiteSpace :: "char \<Rightarrow> bool" where
  "isWhiteSpace c =
     (c \<in> set [CHR 0x09, CHR 0x0A, CHR 0x0B, CHR 0x0C, CHR 0x0D, CHR 0x20, CHR 0xA0])"

definition trim :: "string \<Rightarrow> string" where
  "trim s = rev (dropWhile isWhiteSpace (rev (dropWhile isWhiteSpace s)))"

text \<open>
  \<open>String.prototype.toLowerCase\<close> on code units below 256: the letters A to Z and the
  Latin-1 capitals U+00C0 to U+00DE (without the multiplication sign U+00D7) move up by 32.
\<close>

definition toLowerChar :: "char \<Rightarrow> char" where
  "toLowerChar c =
     (let n = (of_char c :: nat)
      in if (65 \<le> n \<and> n \<le> 90) \<or> (192 \<le> n \<and> n \<le> 222 \<and> n \<noteq> 215)
         then char_of (n + 32) else c)"

definition toLowerCase :: "string \<Rightarrow> string" where
  "toLowerCase s = map toLowerChar s"

text \<open>\<open>s.includes(p)\<close>: \<open>p\<close> occurs in \<open>s\<close> as a contiguous run, tried at every position.\<close>

fun str_includes :: "string \<Rightarrow> string \<Rightarrow> bool" where
  "str_includes [] p = (p = [])"
| "str_includes (c # cs) p = (prefix p (c # cs) \<or> str_includes cs p)"

text \<open>
  \<open>xs.slice(start)\<close> with one argument: a negative \<open>start\<close> counts from the end and is
  clamped at the first element, a positive one is clamped at the length.
\<close>

definition slice :: "int \<Rightarrow> 'a list \<Rightarrow> 'a list" where
  "slice start xs =
     (let len = int (length xs);
          k = (if start < 0 then max (len + start) 0 else min start len)
      in drop (nat k) xs)"

section \<open>The App component: debug log and composer\<close>

text \<open>
  The payload of a debug entry is typed \<open>unknown\<close>: the code only asks whether it is a
  string. Any other value is kept by its JSON text.
\<close>

datatype payload = NoPayload | StringPayload string | OtherPayload string

record DebugEntry =
  entryId :: string
  timestamp :: int
  source :: string
  label :: string
  payload :: payload

text \<open>The \<open>useState\<close> cells of \<open>App\<close>.\<close>

record app_state =
  input :: string
  debugOpen :: bool
  debugEntries :: "DebugEntry list"
  hasDebugAlerts :: bool

definition initialState :: app_state where
  "initialState = \<lparr>input = [], debugOpen = False, debugEntries = [], hasDebugAlerts = False\<rparr>"

definition shouldLogEntry :: "DebugEntry \<Rightarrow> bool" where
  "shouldLogEntry entry =
     (if source entry = ''error'' \<or> source entry = ''stderr'' then True
      else let lbl = toLowerCase (label entry)
           in if str_includes lbl ''warn'' \<or> str_includes lbl ''warning'' then True
              else (case payload entry of
                      StringPayload p \<Rightarrow>
                        (let q = toLowerCase p
                         in str_includes q ''warn'' \<or> str_includes q ''warning'')
                    | _ \<Rightarrow> False))"

definition addDebugEntry :: "DebugEntry \<Rightarrow> app_state \<Rightarrow> app_state" where
  "addDebugEntry entry s =
     (if \<not> shouldLogEntry entry then s
      else s\<lparr>hasDebugAlerts := True,
             debugEntries := slice (- 200) (debugEntries s @ [entry])\<rparr>)"

text \<open>The \<open>onClear\<close> handler given to \<open>DebugPanel\<close>.\<close>

definition onClear :: "app_state \<Rightarrow> app_state" where
  "onClear s = s\<lparr>debugEntries := [], hasDebugAlerts := False\<rparr>"

text \<open>A run of the two operations on the debug log, in the order the calls arrive.\<close>

datatype debug_op = AddDebugEntry DebugEntry | Clear

fun debugStep :: "app_state \<Rightarrow> debug_op \<Rightarrow> app_state" where
  "debugStep s (AddDebugEntry e) = addDebugEntry e s"
| "debugStep s Clear = onClear s"

definition debugRun :: "app_state \<Rightarrow> debug_op list \<Rightarrow> app_state" where
  "debugRun s ops = foldl debugStep s ops"

text \<open>
  Containing "warn" case-insensitively, stated on the string itself: four consecutive code
  units, each the small or the capital form of the letters w, a, r, n. The condition under
  which an entry is to be logged is stated with it, without \<open>toLowerCase\<close> and
  \<open>includes\<close>.
\<close>

definition containsWarn :: "string \<Rightarrow> bool" where
  "containsWarn s =
     (\<exists>us c1 c2 c3 c4 vs. s = us @ [c1, c2, c3, c4] @ vs
        \<and> (c1 = CHR ''w'' \<or> c1 = CHR ''W'') \<and> (c2 = CHR ''a'' \<or> c2 = CHR ''A'')
        \<and> (c3 = CHR ''r'' \<or> c3 = CHR ''R'') \<and> (c4 = CHR ''n'' \<or> c4 = CHR ''N''))"

definition loggedBySpec :: "DebugEntry \<Rightarrow> bool" where
  "loggedBySpec e =
     (source e = ''error'' \<or> source e = ''stderr'' \<or> containsWarn (label e)
      \<or> (\<exists>p. payload e = StringPayload p \<and> containsWarn p))"

text \<open>Sample values the theorems below are run on.\<close>

definition updaterError :: DebugEntry where
  "updaterError = \<lparr>entryId = ''1-client-updater-error'', timestamp = 1, source = ''error'',
     label = ''updater/error'', payload = StringPayload ''offline''\<rparr>"

definition promptsList :: DebugEntry where
  "promptsList = \<lparr>entryId = ''2-client-prompts-list'', timestamp = 2, source = ''client'',
     label = ''prompts/list'', payload = OtherPayload ''{workspaceId: w1}''\<rparr>"

definition deprecationNote :: DebugEntry where
  "deprecationNote = \<lparr>entryId = ''3-server'', timestamp = 3, source = ''server'',
     label = ''models/list response'', payload = StringPayload ''Deprecation WARNING''\<rparr>"

definition fullLog :: app_state where
  "fullLog = \<lparr>input = [], debugOpen = False, debugEntries = replicate 200 updaterError,
     hasDebugAlerts = True\<rparr>"

subsection \<open>The composer\<close>

text \<open>
  \<open>handleSend\<close> awaits two functions that other hooks provide: \<open>connectWorkspace\<close> and
  \<open>sendUserMessage\<close>. They are parameters here. An awaited promise either resolves or
  rejects; a rejection leaves \<open>handleSend\<close> at that point, as the exception would. The
  result records the state afterwards, the calls made in order, and how the promise of
  \<open>handleSend\<close> itself settles.
\<close>

record WorkspaceInfo =
  ws_id :: string
  connected :: bool

datatype outcome = Resolved | Rejected

datatype call = ConnectWorkspace WorkspaceInfo | SendUserMessage string

record send_result =
  after :: app_state
  calls :: "call list"
  settled :: outcome

definition handleSend ::
  "(WorkspaceInfo \<Rightarrow> outcome) \<Rightarrow> (string \<Rightarrow> outcome) \<Rightarrow> WorkspaceInfo option
     \<Rightarrow> app_state \<Rightarrow> send_result" where
  "handleSend connectWorkspace sendUserMessage activeWorkspace s =
     (if trim (input s) = [] then \<lparr>after = s, calls = [], settled = Resolved\<rparr>
      else
        let sendThenReset = (\<lambda>made.
              if sendUserMessage (input s) = Rejected
              then \<lparr>after = s, calls = made @ [SendUserMessage (input s)],
                    settled = Rejected\<rparr>
              else \<lparr>after = s\<lparr>input := []\<rparr>, calls = made @ [SendUserMessage (input s)],
                    settled = Resolved\<rparr>)
        in case activeWorkspace of
             None \<Rightarrow> sendThenReset []
           | Some w \<Rightarrow>
               if \<not> connected w
               then (if connectWorkspace w = Rejected
                     then \<lparr>after = s, calls = [ConnectWorkspace w], settled = Rejected\<rparr>
                     else sendThenReset [ConnectWorkspace w])
               else sendThenReset [])"

definition handleSelectSkill :: "string \<Rightarrow> app_state \<Rightarrow> app_state" where
  "handleSelectSkill name s =
     (let snippet = CHR ''$'' # name;
          prev = input s;
          trimmed = trim prev
      in s\<lparr>input :=
            (if trimmed = [] then snippet @ '' ''
             else if str_includes trimmed snippet then prev
             else trim prev @ '' '' @ snippet @ '' '')\<rparr>)"

definition offline :: WorkspaceInfo where
  "offline = \<lparr>ws_id = ''w1'', connected = False\<rparr>"

definition online :: WorkspaceInfo where
  "online = \<lparr>ws_id = ''w2'', connected = True\<rparr>"

definition typedBlank :: app_state where
  "typedBlank = \<lparr>input = [CHR '' '', CHR 0x09, CHR '' ''], debugOpen = False,
     debugEntries = [], hasDebugAlerts = False\<rparr>"

definition typedHi :: app_state where
  "typedHi = \<lparr>input = '' hi '', debugOpen = False, debugEntries = [], hasDebugAlerts = False\<rparr>"

definition withSkill :: app_state where
  "withSkill = \<lparr>input = ''hi $review '', debugOpen = False, debugEntries = [],
     hasDebugAlerts = False\<rparr>"

section \<open>Session registry and approval gate\<close>

text \<open>
  Modelled from the spec: the Session Registry and the Approval Gate are not among the
  source files; the data model follows section 3 of the specification. This is the
  status of a session.
\<close>

datatype status = Created | Running | AwaitingApproval | Completed | Failed | Aborted

text \<open>Modelled from the spec: the backend kind of a session (remote or local-process).\<close>

datatype kind = Remote | LocalProcess

text \<open>Modelled from the spec: the role of a log entry (user, agent or system).\<close>

datatype role = User | Agent | System

text \<open>
  Modelled from the spec: the payload of an event (text, tool-call descriptor, diff
  reference, or approval request). An approval request carries the proposed action; it is
  the event that signals an approval-required action.
\<close>

datatype event_payload = Text string | ToolCall string | DiffRef string | ApprovalRequest string

text \<open>Modelled from the spec: an event as a caller hands it to the registry.\<close>

record event =
  evRole :: role
  evPayload :: event_payload

text \<open>Modelled from the spec: a log entry, an event with its sequence number.\<close>

record entry =
  seq :: nat
  entryEvent :: event

text \<open>Modelled from the spec: the decision slot of an Approval Request.\<close>

datatype decision = Pending | Approved | Denied

text \<open>
  Modelled from the spec: the decision a caller passes to \<open>decideApproval\<close>; the slot
  value \<open>pending\<close> is not a decision.
\<close>

datatype verdict = Approve | Deny

text \<open>
  Modelled from the spec: an Approval Request references a session, a proposed action
  and a decision slot.
\<close>

record approval =
  requestSession :: nat
  proposedAction :: string
  decisionSlot :: decision

text \<open>Modelled from the spec: the Session entity, with its log.\<close>

record session =
  workspaceId :: nat
  sessionKind :: kind
  status :: status
  eventLog :: "entry list"

text \<open>
  Modelled from the spec: the state the registry and the gate own. A request's identifier
  is its position in \<open>approvals\<close>; session identifiers are allocated in order.
\<close>

record registry =
  sessions :: "nat \<rightharpoonup> session"
  approvals :: "approval list"
  nextSessionId :: nat

text \<open>Modelled from the spec: the error taxonomy of section 7. The spec requires an
  append to a session in a terminal status to fail and names no error for it; it is
  \<open>SessionEnded\<close> here.\<close>

datatype error = TransportUnavailable | ProcessExited | UnsupportedOperation
  | AlreadyResolved | NotFound | Timeout | SessionEnded

text \<open>Modelled from the spec: the registry before any session is created.\<close>

definition emptyRegistry :: registry where
  "emptyRegistry = \<lparr>sessions = Map.empty, approvals = [], nextSessionId = 0\<rparr>"

text \<open>Modelled from the spec: the terminal statuses are completed, failed and aborted.\<close>

definition isTerminal :: "status \<Rightarrow> bool" where
  "isTerminal st = (st = Completed \<or> st = Failed \<or> st = Aborted)"

text \<open>
  Modelled from the spec: "assigns the next sequence number", the successor of the last
  one assigned, 1 for the first entry.
\<close>

definition nextSeq :: "entry list \<Rightarrow> nat" where
  "nextSeq lg = (case lg of [] \<Rightarrow> 1 | _ \<Rightarrow> seq (last lg) + 1)"

text \<open>Modelled from the spec: appending one event to a session's log.\<close>

definition appendEntry :: "session \<Rightarrow> event \<Rightarrow> session" where
  "appendEntry s ev =
     s\<lparr>eventLog := eventLog s @ [\<lparr>seq = nextSeq (eventLog s), entryEvent = ev\<rparr>]\<rparr>"

text \<open>
  Modelled from the spec: \<open>createSession\<close> allocates the entity and records the initial
  status created, then running. The adapter calls are outside the model.
\<close>

definition createSession :: "registry \<Rightarrow> nat \<Rightarrow> kind \<Rightarrow> nat \<times> registry" where
  "createSession r wid k =
     (let sid = nextSessionId r
      in (sid, r\<lparr>sessions := (sessions r)(sid \<mapsto>
                     \<lparr>workspaceId = wid, sessionKind = k, status = Running, eventLog = []\<rparr>),
                  nextSessionId := sid + 1\<rparr>))"

text \<open>
  Modelled from the spec: \<open>appendEvent\<close> assigns the next sequence number, appends, and
  if the event signals an approval-required action, transitions the status to
  awaiting-approval and opens an Approval Request. An unknown session is \<open>NotFound\<close>; a
  session in a terminal status takes no further entry.
\<close>

definition appendEvent :: "registry \<Rightarrow> nat \<Rightarrow> event \<Rightarrow> error + registry" where
  "appendEvent r sid ev =
     (case sessions r sid of
        None \<Rightarrow> Inl NotFound
      | Some s \<Rightarrow>
          if isTerminal (status s) then Inl SessionEnded
          else (case evPayload ev of
                  ApprovalRequest act \<Rightarrow>
                    Inr (r\<lparr>sessions := (sessions r)(sid \<mapsto>
                               (appendEntry s ev)\<lparr>status := AwaitingApproval\<rparr>),
                            approvals := approvals r @
                               [\<lparr>requestSession = sid, proposedAction = act,
                                 decisionSlot = Pending\<rparr>]\<rparr>)
                | _ \<Rightarrow> Inr (r\<lparr>sessions := (sessions r)(sid \<mapsto> appendEntry s ev)\<rparr>)))"

text \<open>Modelled from the spec: the slot value a decision fills in.\<close>

definition slotOf :: "verdict \<Rightarrow> decision" where
  "slotOf v = (case v of Approve \<Rightarrow> Approved | Deny \<Rightarrow> Denied)"

text \<open>Modelled from the spec: the denial event appended when a request is denied.\<close>

definition denialEvent :: "string \<Rightarrow> event" where
  "denialEvent act = \<lparr>evRole = System, evPayload = Text (''approval denied: '' @ act)\<rparr>"

text \<open>
  Modelled from the spec: \<open>decideApproval\<close>, the gate's state machine pending to approved
  or denied. A second decision fails with \<open>AlreadyResolved\<close>. On either decision the
  session that waits for it returns to running; on denied a denial event is appended.
\<close>

definition decideApproval :: "registry \<Rightarrow> nat \<Rightarrow> verdict \<Rightarrow> error + registry" where
  "decideApproval r rid v =
     (if rid \<ge> length (approvals r) then Inl NotFound
      else
        let a = approvals r ! rid
        in if decisionSlot a \<noteq> Pending then Inl AlreadyResolved
           else
             let r1 = r\<lparr>approvals := (approvals r)[rid := a\<lparr>decisionSlot := slotOf v\<rparr>]\<rparr>
             in (case sessions r (requestSession a) of
                   None \<Rightarrow> Inr r1
                 | Some s \<Rightarrow>
                     if status s \<noteq> AwaitingApproval then Inr r1
                     else
                       let s1 = (case v of
                                   Approve \<Rightarrow> s
                                 | Deny \<Rightarrow> appendEntry s (denialEvent (proposedAction a)))
                       in Inr (r1\<lparr>sessions := (sessions r)(requestSession a \<mapsto>
                                     s1\<lparr>status := Running\<rparr>)\<rparr>)))"

text \<open>
  Modelled from the spec: the registry serialises its operations, so an interleaving of
  concurrent sessions is a sequence of operations on any sessions in any order. An
  operation that fails leaves the registry as it was.
\<close>

datatype registry_op = CreateSession nat kind | AppendEvent nat event | DecideApproval nat verdict

text \<open>Modelled from the spec: one operation applied to the registry.\<close>

definition applyOp :: "registry \<Rightarrow> registry_op \<Rightarrow> registry" where
  "applyOp r x =
     (case x of
        CreateSession wid k \<Rightarrow> snd (createSession r wid k)
      | AppendEvent sid ev \<Rightarrow> (case appendEvent r sid ev of Inl _ \<Rightarrow> r | Inr r' \<Rightarrow> r')
      | DecideApproval rid v \<Rightarrow> (case decideApproval r rid v of Inl _ \<Rightarrow> r | Inr r' \<Rightarrow> r'))"

text \<open>Modelled from the spec: a sequence of operations applied in order.\<close>

definition runOps :: "registry \<Rightarrow> registry_op list \<Rightarrow> registry" where
  "runOps r xs = foldl applyOp r xs"

text \<open>
  Modelled from the spec: "strictly increasing and contiguous from 1", the sequence
  numbers of a log read in order are 1, 2, ... up to its length.
\<close>

definition contiguousFromOne :: "entry list \<Rightarrow> bool" where
  "contiguousFromOne lg = (map seq lg = [1..<Suc (length lg)])"

text \<open>
  Modelled from the spec: sample events, an interleaving of two sessions, and the start
  of the scenario of section 8 (a remote session whose adapter reports an action that
  requires approval).
\<close>

definition agentText :: event where
  "agentText = \<lparr>evRole = Agent, evPayload = Text ''Done''\<rparr>"

definition gatedWrite :: event where
  "gatedWrite = \<lparr>evRole = Agent, evPayload = ApprovalRequest ''write file''\<rparr>"

definition twoSessions :: "registry_op list" where
  "twoSessions = [CreateSession 7 Remote, CreateSession 7 LocalProcess, AppendEvent 0 agentText,
     AppendEvent 1 agentText, AppendEvent 0 gatedWrite, AppendEvent 1 agentText,
     DecideApproval 0 Deny]"

definition awaiting :: registry where
  "awaiting = runOps emptyRegistry [CreateSession 7 Remote, AppendEvent 0 gatedWrite]"

text \<open>
  Modelled from the spec: the invariant on sequence numbers, for every session the
  registry holds.
\<close>

definition allLogsContiguous :: "registry \<Rightarrow> bool" where
  "allLogsContiguous r =
     (\<forall>sid s. sessions r sid = Some s \<longrightarrow> contiguousFromOne (eventLog s))"

text \<open>Modelled from the spec: a registry with one session and one entry.\<close>

definition afterTwo :: "registry" where
  "afterTwo = runOps emptyRegistry [CreateSession 7 Remote, AppendEvent 0 agentText]"

section \<open>Facts about the primitives\<close>

lemma slice_last_200: "slice (- 200) xs = drop (length xs - 200) xs"
  by (simp add: slice_def Let_def nat_diff_distrib' max_def)

lemma str_includes_iff: "str_includes s p \<longleftrightarrow> (\<exists>us vs. s = us @ p @ vs)"
proof (induction s)
  case Nil
  then show ?case by auto
next
  case (Cons c cs)
  show ?case
  proof
    assume "str_includes (c # cs) p"
    then consider "prefix p (c # cs)" | "str_includes cs p" by auto
    then show "\<exists>us vs. c # cs = us @ p @ vs"
    proof cases
      case 1
      then obtain vs where "c # cs = p @ vs" by (auto simp: prefix_def)
      then have "c # cs = [] @ p @ vs" by simp
      then show ?thesis by blast
    next
      case 2
      with Cons.IH obtain us vs where "cs = us @ p @ vs" by blast
      then have "c # cs = (c # us) @ p @ vs" by simp
      then show ?thesis by blast
    qed
  next
    assume "\<exists>us vs. c # cs = us @ p @ vs"
    then obtain us vs where e: "c # cs = us @ p @ vs" by blast
    show "str_includes (c # cs) p"
    proof (cases us)
      case Nil
      with e have "prefix p (c # cs)" by (simp add: prefix_def)
      then show ?thesis by simp
    next
      case (Cons u us')
      with e have "cs = us' @ p @ vs" by simp
      with Cons.IH have "str_includes cs p" by blast
      then show ?thesis by simp
    qed
  qed
qed

lemma includes_warning_warn: "str_includes q ''warning'' \<Longrightarrow> str_includes q ''warn''"
proof -
  assume "str_includes q ''warning''"
  then obtain us vs where "q = us @ ''warning'' @ vs" by (auto simp: str_includes_iff)
  then have "q = us @ ''warn'' @ (''ing'' @ vs)" by simp
  then show ?thesis unfolding str_includes_iff by blast
qed

lemma of_char_toLowerChar:
  "(of_char (toLowerChar c) :: nat) =
     (let n = (of_char c :: nat)
      in if (65 \<le> n \<and> n \<le> 90) \<or> (192 \<le> n \<and> n \<le> 222 \<and> n \<noteq> 215)
         then n + 32 else n)"
  by (simp add: toLowerChar_def Let_def)

lemma char_eq_code: "(c = d) = ((of_char c :: nat) = of_char d)"
  by simp

lemma lower_w: "toLowerChar c = CHR ''w'' \<longleftrightarrow> c = CHR ''w'' \<or> c = CHR ''W''"
  unfolding char_eq_code [of _ "CHR ''w''"] char_eq_code [of _ "CHR ''W''"] of_char_toLowerChar
  by (simp add: Let_def) arith

lemma lower_a: "toLowerChar c = CHR ''a'' \<longleftrightarrow> c = CHR ''a'' \<or> c = CHR ''A''"
  unfolding char_eq_code [of _ "CHR ''a''"] char_eq_code [of _ "CHR ''A''"] of_char_toLowerChar
  by (simp add: Let_def) arith

lemma lower_r: "toLowerChar c = CHR ''r'' \<longleftrightarrow> c = CHR ''r'' \<or> c = CHR ''R''"
  unfolding char_eq_code [of _ "CHR ''r''"] char_eq_code [of _ "CHR ''R''"] of_char_toLowerChar
  by (simp add: Let_def) arith

lemma lower_n: "toLowerChar c = CHR ''n'' \<longleftrightarrow> c = CHR ''n'' \<or> c = CHR ''N''"
  unfolding char_eq_code [of _ "CHR ''n''"] char_eq_code [of _ "CHR ''N''"] of_char_toLowerChar
  by (simp add: Let_def) arith

lemma includes_lower_warn: "str_includes (toLowerCase s) ''warn'' \<longleftrightarrow> containsWarn s"
proof
  assume "str_includes (toLowerCase s) ''warn''"
  then obtain us vs where "map toLowerChar s = us @ ''warn'' @ vs"
    by (auto simp: str_includes_iff toLowerCase_def)
  then obtain us' c1 c2 c3 c4 vs' where "s = us' @ [c1, c2, c3, c4] @ vs'"
    "toLowerChar c1 = CHR ''w''" "toLowerChar c2 = CHR ''a''"
    "toLowerChar c3 = CHR ''r''" "toLowerChar c4 = CHR ''n''"
    by (auto simp: map_eq_append_conv map_eq_Cons_conv)
  then show "containsWarn s"
    unfolding containsWarn_def lower_w lower_a lower_r lower_n by blast
next
  assume "containsWarn s"
  then obtain us c1 c2 c3 c4 vs where s: "s = us @ [c1, c2, c3, c4] @ vs"
    and l: "toLowerChar c1 = CHR ''w''" "toLowerChar c2 = CHR ''a''"
    "toLowerChar c3 = CHR ''r''" "toLowerChar c4 = CHR ''n''"
    unfolding containsWarn_def lower_w lower_a lower_r lower_n by blast
  have "toLowerCase s = map toLowerChar us @ ''warn'' @ map toLowerChar vs"
    by (simp add: s l toLowerCase_def)
  then show "str_includes (toLowerCase s) ''warn''"
    unfolding str_includes_iff by blast
qed

lemma shouldLogEntry_iff: "shouldLogEntry e \<longleftrightarrow> loggedBySpec e"
proof -
  have w: "\<And>q. (str_includes q ''warn'' \<or> str_includes q ''warning'') = str_includes q ''warn''"
    using includes_warning_warn by blast
  show ?thesis
    unfolding shouldLogEntry_def loggedBySpec_def Let_def w includes_lower_warn
    by (cases "payload e") auto
qed

lemma slice_last_200_again:
  "slice (- 200) (slice (- 200) xs @ ys) = slice (- 200) (xs @ ys)"
proof (cases "length xs \<le> 200")
  case True
  then show ?thesis by (simp add: slice_last_200)
next
  case False
  then have "length xs + length ys - (length xs - 200 + 200) + (length xs - 200)
      = length xs + length ys - 200" by arith
  then show ?thesis by (simp add: slice_last_200)
qed

lemma addDebugEntry_entries:
  "debugEntries (addDebugEntry e s) =
     (if shouldLogEntry e then slice (- 200) (debugEntries s @ [e]) else debugEntries s)"
  by (simp add: addDebugEntry_def)

lemma addDebugEntry_length:
  "length (debugEntries s) \<le> 200 \<Longrightarrow> length (debugEntries (addDebugEntry e s)) \<le> 200"
  by (auto simp: addDebugEntry_entries slice_last_200)

lemma debugStep_length:
  "length (debugEntries s) \<le> 200 \<Longrightarrow> length (debugEntries (debugStep s x)) \<le> 200"
  by (cases x) (simp_all add: addDebugEntry_length onClear_def)

lemma debugRun_length:
  "length (debugEntries s) \<le> 200 \<Longrightarrow> length (debugEntries (debugRun s ops)) \<le> 200"
  unfolding debugRun_def
  by (induction ops arbitrary: s) (simp_all add: debugStep_length)

lemma debugRun_adds:
  "length (debugEntries s) \<le> 200 \<Longrightarrow>
   debugEntries (debugRun s (map AddDebugEntry es)) =
     slice (- 200) (debugEntries s @ filter shouldLogEntry es)"
  unfolding debugRun_def
proof (induction es arbitrary: s)
  case Nil
  then show ?case by (simp add: slice_last_200)
next
  case (Cons e es)
  have "length (debugEntries (addDebugEntry e s)) \<le> 200"
    using Cons.prems by (rule addDebugEntry_length)
  from Cons.IH [OF this] show ?case
    by (simp add: addDebugEntry_entries slice_last_200_again)
qed

lemma add_at_bound:
  "shouldLogEntry e \<Longrightarrow> length (debugEntries s) = 200 \<Longrightarrow>
   debugEntries (addDebugEntry e s) = tl (debugEntries s) @ [e]"
  by (cases "debugEntries s") (simp_all add: addDebugEntry_entries slice_last_200)

lemma dropWhile_ws_hd: "dropWhile P xs \<noteq> [] \<Longrightarrow> \<not> P (hd (dropWhile P xs))"
  by (metis hd_dropWhile)

lemma trim_snoc_ws: "isWhiteSpace c \<Longrightarrow> trim (xs @ [c]) = trim xs"
proof (cases "\<forall>x\<in>set xs. isWhiteSpace x")
  case True
  assume c: "isWhiteSpace c"
  from True have "dropWhile isWhiteSpace (xs @ [c]) = dropWhile isWhiteSpace [c]"
    by (intro dropWhile_append2) blast
  moreover from True have "dropWhile isWhiteSpace xs = []" by simp
  ultimately show ?thesis using c by (auto simp: trim_def dest: set_dropWhileD)
next
  case False
  assume c: "isWhiteSpace c"
  from False obtain x where x: "x \<in> set xs" "\<not> isWhiteSpace x" by blast
  then have "dropWhile isWhiteSpace (xs @ [c]) = dropWhile isWhiteSpace xs @ [c]"
    by (intro dropWhile_append1)
  with c show ?thesis by (simp add: trim_def)
qed

lemma trim_empty_iff: "(trim s = []) = list_all isWhiteSpace s"
proof
  assume "trim s = []"
  then have "dropWhile isWhiteSpace (rev (dropWhile isWhiteSpace s)) = []"
    by (simp add: trim_def)
  then have a: "\<forall>x\<in>set (dropWhile isWhiteSpace s). isWhiteSpace x" by simp
  have "dropWhile isWhiteSpace s = []"
  proof (rule ccontr)
    assume n: "dropWhile isWhiteSpace s \<noteq> []"
    then have "\<not> isWhiteSpace (hd (dropWhile isWhiteSpace s))" by (rule dropWhile_ws_hd)
    moreover from n have "hd (dropWhile isWhiteSpace s) \<in> set (dropWhile isWhiteSpace s)"
      by (rule hd_in_set)
    ultimately show False using a by blast
  qed
  then show "list_all isWhiteSpace s" by (simp add: list_all_iff)
next
  assume "list_all isWhiteSpace s"
  then have "\<forall>x\<in>set s. isWhiteSpace x" by (simp add: list_all_iff)
  then show "trim s = []" by (auto simp: trim_def dest: set_dropWhileD)
qed

lemma trim_fixed:
  assumes "xs \<noteq> []" "\<not> isWhiteSpace (hd xs)" "\<not> isWhiteSpace (last xs)"
  shows "trim xs = xs"
proof -
  from assms(1,2) have a: "dropWhile isWhiteSpace xs = xs" by (cases xs) simp_all
  from assms(1,3) have "dropWhile isWhiteSpace (rev xs) = rev xs"
    by (cases "rev xs") (simp_all add: last_rev [symmetric] hd_rev)
  with a show ?thesis by (simp add: trim_def)
qed

lemma trim_hd: "trim xs \<noteq> [] \<Longrightarrow> \<not> isWhiteSpace (hd (trim xs))"
proof -
  assume n: "trim xs \<noteq> []"
  let ?d = "dropWhile isWhiteSpace xs"
  let ?e = "dropWhile isWhiteSpace (rev ?d)"
  from n have d: "?d \<noteq> []" by (auto simp: trim_def dest: set_dropWhileD)
  then have h: "\<not> isWhiteSpace (hd ?d)" by (rule dropWhile_ws_hd)
  from d have "last (rev ?d) = hd ?d" by (simp add: last_rev)
  have "rev ?d \<noteq> []" using d by simp
  obtain ys where ys: "rev ?d = ys @ [hd ?d]"
    using d by (metis append_butlast_last_id \<open>last (rev ?d) = hd ?d\<close> \<open>rev ?d \<noteq> []\<close>)
  have "?e = dropWhile isWhiteSpace ys @ [hd ?d]"
    using h ys by (simp add: dropWhile_append3)
  then have "trim xs = hd ?d # rev (dropWhile isWhiteSpace ys)" by (simp add: trim_def)
  with h show ?thesis by simp
qed

lemma snippet_ends:
  assumes "name = [] \<or> \<not> isWhiteSpace (last name)"
  shows "\<not> isWhiteSpace (last (CHR ''$'' # name))" "\<not> isWhiteSpace (hd (CHR ''$'' # name))"
  using assms by (auto simp: isWhiteSpace_def)

lemma includes_suffix: "str_includes (us @ p) p"
  unfolding str_includes_iff by (rule exI [of _ us], rule exI [of _ "[]"]) simp

lemma select_settles:
  fixes s :: app_state
  assumes nm: "name = [] \<or> \<not> isWhiteSpace (last name)"
  defines "r \<equiv> input (handleSelectSkill name s)"
  shows "trim r \<noteq> [] \<and> str_includes (trim r) (CHR ''$'' # name)"
proof -
  let ?sn = "CHR ''$'' # name"
  let ?t = "trim (input s)"
  have sp: "isWhiteSpace (CHR '' '')" by (simp add: isWhiteSpace_def)
  consider (empty) "?t = []" | (has) "?t \<noteq> []" "str_includes ?t ?sn"
    | (adds) "?t \<noteq> []" "\<not> str_includes ?t ?sn" by blast
  then show ?thesis
  proof cases
    case empty
    then have "r = ?sn @ [CHR '' '']" by (simp add: r_def handleSelectSkill_def Let_def)
    then have "trim r = trim ?sn" using sp by (simp only: trim_snoc_ws)
    also have "\<dots> = ?sn" using snippet_ends [OF nm] by (intro trim_fixed) simp_all
    finally have "trim r = [] @ ?sn" by simp
    then show ?thesis using includes_suffix [of "[]" ?sn] by simp
  next
    case has
    then have "r = input s" by (simp add: r_def handleSelectSkill_def Let_def)
    with has show ?thesis by simp
  next
    case adds
    let ?body = "?t @ CHR '' '' # ?sn"
    from adds have "r = ?body @ [CHR '' '']"
      by (simp add: r_def handleSelectSkill_def Let_def)
    then have "trim r = trim ?body" using sp by (simp only: trim_snoc_ws)
    also have "\<dots> = ?body"
    proof (rule trim_fixed)
      show "?body \<noteq> []" by simp
      show "\<not> isWhiteSpace (hd ?body)" using adds(1) trim_hd [of "input s"] by simp
      show "\<not> isWhiteSpace (last ?body)" using snippet_ends(1) [OF nm] by simp
    qed
    finally have "trim r = (?t @ [CHR '' '']) @ ?sn" by simp
    then show ?thesis using includes_suffix [of "?t @ [CHR '' '']" ?sn] by simp
  qed
qed

lemma select_idempotent:
  assumes nm: "name = [] \<or> \<not> isWhiteSpace (last name)"
  shows "handleSelectSkill name (handleSelectSkill name s) = handleSelectSkill name s"
proof -
  let ?s1 = "handleSelectSkill name s"
  from select_settles [OF nm, of s]
  have "trim (input ?s1) \<noteq> []" "str_includes (trim (input ?s1)) (CHR ''$'' # name)" by simp_all
  then show ?thesis by (simp add: handleSelectSkill_def [of name ?s1] Let_def)
qed

section \<open>The debug log\<close>

text \<open>
  Claim C7. The debug log is a bounded buffer that drops its oldest entries, with an
  explicit reset. After any sequence of \<open>addDebugEntry\<close> and clear calls from the initial
  state the list holds at most 200 entries. After a run of \<open>addDebugEntry\<close> calls the list
  is the last 200, in arrival order, of what was there followed by the entries that were
  logged; in particular an entry logged into a list of 200 drops the oldest one and
  stands last. Clearing empties the list and sets the alert flag to false.
\<close>

theorem debug_log_bounded:
  "length (debugEntries (debugRun initialState ops)) \<le> 200
   \<and> (length (debugEntries s) \<le> 200 \<longrightarrow>
        debugEntries (debugRun s (map AddDebugEntry es)) =
          (let arrived = debugEntries s @ filter shouldLogEntry es
           in drop (length arrived - 200) arrived))
   \<and> (shouldLogEntry e \<and> length (debugEntries s) = 200 \<longrightarrow>
        debugEntries (addDebugEntry e s) = tl (debugEntries s) @ [e])
   \<and> debugEntries (onClear s) = [] \<and> hasDebugAlerts (onClear s) = False"
proof -
  have "length (debugEntries initialState) \<le> 200" by (simp add: initialState_def)
  then have "length (debugEntries (debugRun initialState ops)) \<le> 200"
    by (rule debugRun_length)
  moreover have "length (debugEntries s) \<le> 200 \<longrightarrow>
        debugEntries (debugRun s (map AddDebugEntry es)) =
          (let arrived = debugEntries s @ filter shouldLogEntry es
           in drop (length arrived - 200) arrived)"
    using debugRun_adds [of s es] by (simp add: slice_last_200 Let_def)
  moreover have "shouldLogEntry e \<and> length (debugEntries s) = 200 \<longrightarrow>
        debugEntries (addDebugEntry e s) = tl (debugEntries s) @ [e]"
    using add_at_bound by blast
  moreover have "debugEntries (onClear s) = [] \<and> hasDebugAlerts (onClear s) = False"
    by (simp add: onClear_def)
  ultimately show ?thesis by blast
qed

theorem debug_log_bounded_witness:
  "length (debugEntries (debugRun initialState [AddDebugEntry updaterError, Clear,
      AddDebugEntry promptsList])) \<le> 200
   \<and> length (debugEntries fullLog) \<le> 200
   \<and> debugEntries (debugRun fullLog (map AddDebugEntry [promptsList, deprecationNote])) =
        (let arrived = debugEntries fullLog @ filter shouldLogEntry [promptsList, deprecationNote]
         in drop (length arrived - 200) arrived)
   \<and> shouldLogEntry deprecationNote \<and> length (debugEntries fullLog) = 200
   \<and> debugEntries (addDebugEntry deprecationNote fullLog) =
        tl (debugEntries fullLog) @ [deprecationNote]
   \<and> debugEntries (onClear fullLog) = [] \<and> hasDebugAlerts (onClear fullLog) = False"
proof -
  have l: "length (debugEntries fullLog) = 200" by (simp add: fullLog_def)
  have d: "shouldLogEntry deprecationNote" by code_simp
  show ?thesis
    using l d debug_log_bounded [of "[AddDebugEntry updaterError, Clear, AddDebugEntry promptsList]"
        fullLog "[promptsList, deprecationNote]" deprecationNote]
    by simp
qed

text \<open>
  Claim C8. \<open>addDebugEntry\<close> appends the entry (as the last one, within the bound of 200)
  and sets the alert flag exactly when the entry's source is "error" or "stderr", or its
  label contains "warn" in any mix of capitals and small letters, or its payload is a
  string that does; for any other entry the state is left as it was.
\<close>

theorem addDebugEntry_logs_exactly:
  "(loggedBySpec e \<longrightarrow>
      addDebugEntry e s =
        s\<lparr>hasDebugAlerts := True,
           debugEntries := drop (length (debugEntries s @ [e]) - 200) (debugEntries s @ [e])\<rparr>
      \<and> last (debugEntries (addDebugEntry e s)) = e
      \<and> hasDebugAlerts (addDebugEntry e s))
   \<and> (\<not> loggedBySpec e \<longrightarrow> addDebugEntry e s = s)"
proof (cases "loggedBySpec e")
  case True
  then have "shouldLogEntry e" by (simp add: shouldLogEntry_iff)
  then have "addDebugEntry e s =
        s\<lparr>hasDebugAlerts := True,
           debugEntries := drop (length (debugEntries s @ [e]) - 200) (debugEntries s @ [e])\<rparr>"
    by (simp add: addDebugEntry_def slice_last_200)
  with True show ?thesis by simp
next
  case False
  then have "\<not> shouldLogEntry e" by (simp add: shouldLogEntry_iff)
  with False show ?thesis by (simp add: addDebugEntry_def)
qed

theorem addDebugEntry_logs_exactly_witness:
  "loggedBySpec updaterError \<and> loggedBySpec deprecationNote \<and> \<not> loggedBySpec promptsList
   \<and> debugEntries (addDebugEntry updaterError initialState) = [updaterError]
   \<and> hasDebugAlerts (addDebugEntry updaterError initialState)
   \<and> debugEntries (addDebugEntry deprecationNote initialState) = [deprecationNote]
   \<and> addDebugEntry promptsList initialState = initialState"
proof -
  have a: "loggedBySpec updaterError" unfolding shouldLogEntry_iff [symmetric] by code_simp
  have b: "loggedBySpec deprecationNote" unfolding shouldLogEntry_iff [symmetric] by code_simp
  have c: "\<not> loggedBySpec promptsList" unfolding shouldLogEntry_iff [symmetric] by code_simp
  show ?thesis
    using a b c addDebugEntry_logs_exactly [of updaterError initialState]
      addDebugEntry_logs_exactly [of deprecationNote initialState]
      addDebugEntry_logs_exactly [of promptsList initialState]
    by (simp add: initialState_def)
qed

section \<open>The composer handlers\<close>

text \<open>
  Claim C9, as amended. \<open>handleSend\<close> does nothing when the input is empty or white space
  only (its trim is empty exactly when every code unit is white space): no call is made
  and the state is unchanged. For any other input, \<open>connectWorkspace\<close> is called first
  exactly when there is an active workspace and it is disconnected; with no active
  workspace or a connected one the only call is \<open>sendUserMessage\<close>. If the connect step
  rejects, \<open>handleSend\<close> rejects, nothing is sent and the input is left as it was.
  Otherwise \<open>sendUserMessage\<close> is called last, with the input as typed, not trimmed: if it
  resolves, \<open>handleSend\<close> resolves and the input is reset to the empty string; if it
  rejects, \<open>handleSend\<close> rejects and the input is left as it was.
\<close>

theorem handleSend_behaviour:
  "(trim (input s) = []) = list_all isWhiteSpace (input s)
   \<and> (trim (input s) = [] \<longrightarrow>
      handleSend cw sm aw s = \<lparr>after = s, calls = [], settled = Resolved\<rparr>)
   \<and> (trim (input s) \<noteq> [] \<and> settled (handleSend cw sm aw s) = Resolved \<longrightarrow>
        calls (handleSend cw sm aw s) \<noteq> []
        \<and> last (calls (handleSend cw sm aw s)) = SendUserMessage (input s)
        \<and> after (handleSend cw sm aw s) = s\<lparr>input := []\<rparr>)
   \<and> (trim (input s) \<noteq> [] \<and> (\<forall>w. aw = Some w \<and> \<not> connected w \<longrightarrow> cw w = Resolved)
        \<and> sm (input s) = Resolved \<longrightarrow>
        settled (handleSend cw sm aw s) = Resolved
        \<and> after (handleSend cw sm aw s) = s\<lparr>input := []\<rparr>)
   \<and> (trim (input s) \<noteq> [] \<and> (\<forall>w. aw = Some w \<and> \<not> connected w \<longrightarrow> cw w = Resolved)
        \<and> sm (input s) = Rejected \<longrightarrow>
        settled (handleSend cw sm aw s) = Rejected
        \<and> after (handleSend cw sm aw s) = s)
   \<and> (settled (handleSend cw sm aw s) = Rejected \<longrightarrow> after (handleSend cw sm aw s) = s)
   \<and> (trim (input s) \<noteq> [] \<and> aw = Some w \<and> \<not> connected w \<and> cw w = Rejected \<longrightarrow>
        handleSend cw sm aw s = \<lparr>after = s, calls = [ConnectWorkspace w], settled = Rejected\<rparr>)
   \<and> (trim (input s) \<noteq> [] \<and> aw = Some w \<and> \<not> connected w \<and> cw w = Resolved \<longrightarrow>
        calls (handleSend cw sm aw s) = [ConnectWorkspace w, SendUserMessage (input s)])
   \<and> (trim (input s) \<noteq> [] \<and> (aw = None \<or> (\<exists>v. aw = Some v \<and> connected v)) \<longrightarrow>
        calls (handleSend cw sm aw s) = [SendUserMessage (input s)])"
proof -
  have o: "\<And>x. (x \<noteq> Rejected) = (x = Resolved)" by (metis outcome.exhaust outcome.distinct(1))
  have "(trim (input s) = []) = list_all isWhiteSpace (input s)" by (rule trim_empty_iff)
  moreover have "trim (input s) = [] \<longrightarrow>
      handleSend cw sm aw s = \<lparr>after = s, calls = [], settled = Resolved\<rparr>"
    by (simp add: handleSend_def)
  moreover have "trim (input s) \<noteq> [] \<and> settled (handleSend cw sm aw s) = Resolved \<longrightarrow>
        calls (handleSend cw sm aw s) \<noteq> []
        \<and> last (calls (handleSend cw sm aw s)) = SendUserMessage (input s)
        \<and> after (handleSend cw sm aw s) = s\<lparr>input := []\<rparr>"
    by (cases aw) (auto simp: handleSend_def Let_def o)
  moreover have "trim (input s) \<noteq> [] \<and> (\<forall>w. aw = Some w \<and> \<not> connected w \<longrightarrow> cw w = Resolved)
        \<and> sm (input s) = Resolved \<longrightarrow>
        settled (handleSend cw sm aw s) = Resolved
        \<and> after (handleSend cw sm aw s) = s\<lparr>input := []\<rparr>"
    by (cases aw) (auto simp: handleSend_def Let_def o)
  moreover have "trim (input s) \<noteq> [] \<and> (\<forall>w. aw = Some w \<and> \<not> connected w \<longrightarrow> cw w = Resolved)
        \<and> sm (input s) = Rejected \<longrightarrow>
        settled (handleSend cw sm aw s) = Rejected
        \<and> after (handleSend cw sm aw s) = s"
    by (cases aw) (auto simp: handleSend_def Let_def o)
  moreover have "settled (handleSend cw sm aw s) = Rejected \<longrightarrow> after (handleSend cw sm aw s) = s"
    by (cases aw) (auto simp: handleSend_def Let_def o)
  moreover have "trim (input s) \<noteq> [] \<and> aw = Some w \<and> \<not> connected w \<and> cw w = Rejected \<longrightarrow>
        handleSend cw sm aw s = \<lparr>after = s, calls = [ConnectWorkspace w], settled = Rejected\<rparr>"
    by (simp add: handleSend_def Let_def)
  moreover have "trim (input s) \<noteq> [] \<and> aw = Some w \<and> \<not> connected w \<and> cw w = Resolved \<longrightarrow>
        calls (handleSend cw sm aw s) = [ConnectWorkspace w, SendUserMessage (input s)]"
    by (simp add: handleSend_def Let_def)
  moreover have "trim (input s) \<noteq> [] \<and> (aw = None \<or> (\<exists>v. aw = Some v \<and> connected v)) \<longrightarrow>
        calls (handleSend cw sm aw s) = [SendUserMessage (input s)]"
    by (cases aw) (auto simp: handleSend_def Let_def)
  ultimately show ?thesis by blast
qed

theorem handleSend_behaviour_witness:
  "list_all isWhiteSpace (input typedBlank) \<and> input typedBlank \<noteq> []
   \<and> handleSend (\<lambda>_. Resolved) (\<lambda>_. Resolved) (Some offline) typedBlank
       = \<lparr>after = typedBlank, calls = [], settled = Resolved\<rparr>
   \<and> trim (input typedHi) \<noteq> [] \<and> \<not> connected offline \<and> connected online
   \<and> calls (handleSend (\<lambda>_. Resolved) (\<lambda>_. Resolved) (Some offline) typedHi)
       = [ConnectWorkspace offline, SendUserMessage '' hi '']
   \<and> settled (handleSend (\<lambda>_. Resolved) (\<lambda>_. Resolved) (Some offline) typedHi) = Resolved
   \<and> after (handleSend (\<lambda>_. Resolved) (\<lambda>_. Resolved) (Some offline) typedHi)
       = typedHi\<lparr>input := []\<rparr>
   \<and> calls (handleSend (\<lambda>_. Resolved) (\<lambda>_. Rejected) (Some online) typedHi)
       = [SendUserMessage '' hi '']
   \<and> settled (handleSend (\<lambda>_. Resolved) (\<lambda>_. Rejected) (Some online) typedHi) = Rejected
   \<and> after (handleSend (\<lambda>_. Resolved) (\<lambda>_. Rejected) (Some online) typedHi) = typedHi
   \<and> settled (handleSend (\<lambda>_. Resolved) (\<lambda>_. Rejected) (Some offline) typedHi) = Rejected
   \<and> after (handleSend (\<lambda>_. Resolved) (\<lambda>_. Rejected) (Some offline) typedHi) = typedHi
   \<and> handleSend (\<lambda>_. Rejected) (\<lambda>_. Resolved) (Some offline) typedHi
       = \<lparr>after = typedHi, calls = [ConnectWorkspace offline], settled = Rejected\<rparr>"
proof -
  have w: "list_all isWhiteSpace (input typedBlank)" "input typedBlank \<noteq> []" by code_simp+
  have a: "trim (input typedHi) \<noteq> []" by code_simp
  have c: "input typedHi = '' hi ''" by (simp add: typedHi_def)
  have d: "\<not> connected offline" "connected online" by (simp_all add: offline_def online_def)
  note blank = handleSend_behaviour [where s = typedBlank and cw = "\<lambda>_. Resolved"
      and sm = "\<lambda>_. Resolved" and aw = "Some offline" and w = offline]
  note sent = handleSend_behaviour [where s = typedHi and cw = "\<lambda>_. Resolved"
      and sm = "\<lambda>_. Resolved" and aw = "Some offline" and w = offline]
  note sendFails = handleSend_behaviour [where s = typedHi and cw = "\<lambda>_. Resolved"
      and sm = "\<lambda>_. Rejected" and aw = "Some online" and w = online]
  note sendFailsAfterConnect = handleSend_behaviour [where s = typedHi and cw = "\<lambda>_. Resolved"
      and sm = "\<lambda>_. Rejected" and aw = "Some offline" and w = offline]
  note connectFails = handleSend_behaviour [where s = typedHi and cw = "\<lambda>_. Rejected"
      and sm = "\<lambda>_. Resolved" and aw = "Some offline" and w = offline]
  from blank w have 1: "handleSend (\<lambda>_. Resolved) (\<lambda>_. Resolved) (Some offline) typedBlank
       = \<lparr>after = typedBlank, calls = [], settled = Resolved\<rparr>" by simp
  from sent a d have 2:
    "calls (handleSend (\<lambda>_. Resolved) (\<lambda>_. Resolved) (Some offline) typedHi)
       = [ConnectWorkspace offline, SendUserMessage (input typedHi)]"
    "settled (handleSend (\<lambda>_. Resolved) (\<lambda>_. Resolved) (Some offline) typedHi) = Resolved"
    "after (handleSend (\<lambda>_. Resolved) (\<lambda>_. Resolved) (Some offline) typedHi)
       = typedHi\<lparr>input := []\<rparr>" by simp_all
  from sendFails a d have 3:
    "calls (handleSend (\<lambda>_. Resolved) (\<lambda>_. Rejected) (Some online) typedHi)
       = [SendUserMessage (input typedHi)]"
    "settled (handleSend (\<lambda>_. Resolved) (\<lambda>_. Rejected) (Some online) typedHi) = Rejected"
    "after (handleSend (\<lambda>_. Resolved) (\<lambda>_. Rejected) (Some online) typedHi) = typedHi"
    by simp_all
  from sendFailsAfterConnect a d have 4:
    "settled (handleSend (\<lambda>_. Resolved) (\<lambda>_. Rejected) (Some offline) typedHi) = Rejected"
    "after (handleSend (\<lambda>_. Resolved) (\<lambda>_. Rejected) (Some offline) typedHi) = typedHi"
    by simp_all
  from connectFails a d have 5: "handleSend (\<lambda>_. Rejected) (\<lambda>_. Resolved) (Some offline) typedHi
       = \<lparr>after = typedHi, calls = [ConnectWorkspace offline], settled = Rejected\<rparr>" by simp
  from w a d 1 2 3 4 5 show ?thesis by (simp add: c)
qed

text \<open>
  With a disconnected workspace whose connection fails, a non-blank input is not passed
  to \<open>sendUserMessage\<close> and is not reset.
\<close>

theorem handleSend_not_sent_counterexample:
  "trim (input typedHi) \<noteq> []
   \<and> calls (handleSend (\<lambda>_. Rejected) (\<lambda>_. Resolved) (Some offline) typedHi)
       = [ConnectWorkspace offline]
   \<and> SendUserMessage (input typedHi)
       \<notin> set (calls (handleSend (\<lambda>_. Rejected) (\<lambda>_. Resolved) (Some offline) typedHi))
   \<and> input (after (handleSend (\<lambda>_. Rejected) (\<lambda>_. Resolved) (Some offline) typedHi)) = '' hi ''"
proof -
  have a: "trim '' hi '' = ''hi''" by code_simp
  have c: "input typedHi = '' hi ''" by (simp add: typedHi_def)
  have d: "\<not> connected offline" by (simp add: offline_def)
  show ?thesis by (simp add: a c d handleSend_def)
qed

text \<open>
  Claim C10, as amended. \<open>handleSelectSkill\<close> leaves the state unchanged when the trimmed
  input already contains the snippet, "$" followed by the skill name; on an input that
  trims to nothing the new input is the snippet and one space; otherwise it is the trimmed
  input, a space, the snippet and a space. Selecting the same skill twice equals
  selecting it once whenever the skill name does not end in a white-space character.
\<close>

theorem handleSelectSkill_branches:
  "(str_includes (trim (input s)) (CHR ''$'' # name) \<longrightarrow> handleSelectSkill name s = s)
   \<and> (trim (input s) = [] \<longrightarrow>
        input (handleSelectSkill name s) = (CHR ''$'' # name) @ '' '')
   \<and> (trim (input s) \<noteq> [] \<and> \<not> str_includes (trim (input s)) (CHR ''$'' # name) \<longrightarrow>
        input (handleSelectSkill name s) = trim (input s) @ '' '' @ (CHR ''$'' # name) @ '' '')
   \<and> (name = [] \<or> \<not> isWhiteSpace (last name) \<longrightarrow>
        handleSelectSkill name (handleSelectSkill name s) = handleSelectSkill name s)"
proof -
  have "str_includes (trim (input s)) (CHR ''$'' # name) \<longrightarrow> handleSelectSkill name s = s"
    by (cases "trim (input s) = []") (simp_all add: handleSelectSkill_def Let_def)
  moreover have "trim (input s) = [] \<longrightarrow>
        input (handleSelectSkill name s) = (CHR ''$'' # name) @ '' ''"
    by (simp add: handleSelectSkill_def Let_def)
  moreover have "trim (input s) \<noteq> [] \<and> \<not> str_includes (trim (input s)) (CHR ''$'' # name) \<longrightarrow>
        input (handleSelectSkill name s) = trim (input s) @ '' '' @ (CHR ''$'' # name) @ '' ''"
    by (simp add: handleSelectSkill_def Let_def)
  moreover have "name = [] \<or> \<not> isWhiteSpace (last name) \<longrightarrow>
        handleSelectSkill name (handleSelectSkill name s) = handleSelectSkill name s"
    using select_idempotent by blast
  ultimately show ?thesis by blast
qed

theorem handleSelectSkill_branches_witness:
  "trim (input initialState) = []
   \<and> input (handleSelectSkill ''review'' initialState) = ''$review ''
   \<and> trim (input typedHi) \<noteq> [] \<and> \<not> str_includes (trim (input typedHi)) ''$review''
   \<and> input (handleSelectSkill ''review'' typedHi) = ''hi $review ''
   \<and> str_includes (trim (input withSkill)) ''$review''
   \<and> handleSelectSkill ''review'' withSkill = withSkill
   \<and> \<not> isWhiteSpace (last ''review'')
   \<and> handleSelectSkill ''review'' (handleSelectSkill ''review'' typedHi)
       = handleSelectSkill ''review'' typedHi"
proof -
  have a: "trim (input initialState) = []" by code_simp
  have b: "trim (input typedHi) = ''hi''" by code_simp
  have c: "\<not> str_includes ''hi'' ''$review''" by code_simp
  have d: "str_includes (trim (input withSkill)) ''$review''" by code_simp
  have e: "\<not> isWhiteSpace (last ''review'')" by code_simp
  show ?thesis
    using a b c d e handleSelectSkill_branches [of initialState "''review''"]
      handleSelectSkill_branches [of typedHi "''review''"]
      handleSelectSkill_branches [of withSkill "''review''"]
    by simp
qed

text \<open>
  For the skill name "a " (ending in a space) the second selection does not find the
  snippet "$a " in the trimmed input "$a" and appends it again.
\<close>

theorem handleSelectSkill_twice_counterexample:
  "input (handleSelectSkill ''a '' initialState) = ''$a  ''
   \<and> input (handleSelectSkill ''a '' (handleSelectSkill ''a '' initialState)) = ''$a $a  ''
   \<and> handleSelectSkill ''a '' (handleSelectSkill ''a '' initialState)
       \<noteq> handleSelectSkill ''a '' initialState"
proof -
  have a: "input (handleSelectSkill ''a '' initialState) = ''$a  ''" by code_simp
  have b: "input (handleSelectSkill ''a '' (handleSelectSkill ''a '' initialState)) = ''$a $a  ''"
    by code_simp
  have "input (handleSelectSkill ''a '' (handleSelectSkill ''a '' initialState))
       \<noteq> input (handleSelectSkill ''a '' initialState)"
    unfolding a b by simp
  then have "handleSelectSkill ''a '' (handleSelectSkill ''a '' initialState)
       \<noteq> handleSelectSkill ''a '' initialState" by metis
  with a b show ?thesis by simp
qed

section \<open>Facts about the registry and the gate\<close>

lemma nextSeq_nonempty: "lg \<noteq> [] \<Longrightarrow> nextSeq lg = seq (last lg) + 1"
  by (cases lg) (simp_all add: nextSeq_def)

lemma nextSeq_contiguous: "contiguousFromOne lg \<Longrightarrow> nextSeq lg = Suc (length lg)"
proof (cases lg rule: rev_cases)
  case Nil
  then show ?thesis by (simp add: nextSeq_def)
next
  case (snoc ys y)
  assume "contiguousFromOne lg"
  then have "map seq (ys @ [y]) = [1..<Suc (Suc (length ys))]"
    by (simp add: contiguousFromOne_def snoc)
  then have "last (map seq (ys @ [y])) = last [1..<Suc (Suc (length ys))]" by simp
  then have "seq y = Suc (length ys)" by simp
  moreover have "lg \<noteq> []" by (simp add: snoc)
  then have "nextSeq lg = seq (last lg) + 1" by (rule nextSeq_nonempty)
  moreover have "last lg = y" by (simp add: snoc)
  ultimately show ?thesis by (simp add: snoc)
qed

lemma appendEntry_log:
  "eventLog (appendEntry s ev) = eventLog s @ [\<lparr>seq = nextSeq (eventLog s), entryEvent = ev\<rparr>]"
  by (simp add: appendEntry_def)

lemma appendEntry_contiguous:
  "contiguousFromOne (eventLog s) \<Longrightarrow> contiguousFromOne (eventLog (appendEntry s ev))"
  by (simp add: appendEntry_log nextSeq_contiguous) (simp add: contiguousFromOne_def)

lemma appendEvent_effect:
  assumes "appendEvent r sid ev = Inr r'"
  shows "\<exists>s s'. sessions r sid = Some s \<and> sessions r' sid = Some s'
           \<and> eventLog s' = eventLog s @ [\<lparr>seq = nextSeq (eventLog s), entryEvent = ev\<rparr>]"
    and "\<forall>other. other \<noteq> sid \<longrightarrow> sessions r' other = sessions r other"
  using assms
  by (auto simp: appendEvent_def appendEntry_log split: option.splits if_splits event_payload.splits)

lemma appendEvent_contiguous:
  assumes "allLogsContiguous r" "appendEvent r sid ev = Inr r'"
  shows "allLogsContiguous r'"
  unfolding allLogsContiguous_def
proof (intro allI impI)
  fix k s' assume k: "sessions r' k = Some s'"
  show "contiguousFromOne (eventLog s')"
  proof (cases "k = sid")
    case True
    from appendEvent_effect(1) [OF assms(2)] k True obtain s where
      s: "sessions r sid = Some s"
      "eventLog s' = eventLog s @ [\<lparr>seq = nextSeq (eventLog s), entryEvent = ev\<rparr>]" by auto
    from assms(1) s(1) have "contiguousFromOne (eventLog s)" by (simp add: allLogsContiguous_def)
    from appendEntry_contiguous [OF this, of ev] s(2) show ?thesis by (simp add: appendEntry_log)
  next
    case False
    with appendEvent_effect(2) [OF assms(2)] k have "sessions r k = Some s'" by simp
    with assms(1) show ?thesis by (simp add: allLogsContiguous_def)
  qed
qed

lemma createSession_contiguous:
  "allLogsContiguous r \<Longrightarrow> allLogsContiguous (snd (createSession r wid k))"
  by (auto simp: allLogsContiguous_def createSession_def Let_def contiguousFromOne_def)

lemma decideApproval_contiguous:
  assumes "allLogsContiguous r" "decideApproval r rid v = Inr r'"
  shows "allLogsContiguous r'"
  using assms appendEntry_contiguous
  by (cases v)
    (auto simp: allLogsContiguous_def decideApproval_def Let_def
      split: if_splits option.splits)

lemma applyOp_contiguous: "allLogsContiguous r \<Longrightarrow> allLogsContiguous (applyOp r x)"
  by (cases x)
    (auto simp: applyOp_def createSession_contiguous
      intro: appendEvent_contiguous decideApproval_contiguous split: sum.splits)

lemma runOps_contiguous: "allLogsContiguous r \<Longrightarrow> allLogsContiguous (runOps r xs)"
  unfolding runOps_def
  by (induction xs arbitrary: r) (simp_all add: applyOp_contiguous)

lemma empty_contiguous: "allLogsContiguous emptyRegistry"
  by (simp add: allLogsContiguous_def emptyRegistry_def)

lemma slotOf_resolved: "slotOf v \<noteq> Pending"
  by (cases v) (simp_all add: slotOf_def)

lemma decideApproval_resolved:
  "rid < length (approvals r) \<Longrightarrow> decisionSlot (approvals r ! rid) \<noteq> Pending \<Longrightarrow>
   decideApproval r rid v = Inl AlreadyResolved"
  by (simp add: decideApproval_def Let_def)

lemma decideApproval_pending:
  assumes "rid < length (approvals r)" "decisionSlot (approvals r ! rid) = Pending"
  shows "\<exists>r'. decideApproval r rid v = Inr r' \<and> length (approvals r') = length (approvals r)
           \<and> decisionSlot (approvals r' ! rid) = slotOf v"
  using assms
  by (auto simp: decideApproval_def Let_def split: option.splits)

lemma decideApproval_keeps:
  assumes "decideApproval r k v = Inr r'" "rid < length (approvals r)"
    "decisionSlot (approvals r ! rid) \<noteq> Pending"
  shows "length (approvals r') = length (approvals r) \<and> approvals r' ! rid = approvals r ! rid"
proof -
  from assms(1) have k: "k < length (approvals r)" "decisionSlot (approvals r ! k) = Pending"
    by (auto simp: decideApproval_def Let_def split: if_splits)
  with assms(3) have "k \<noteq> rid" by auto
  with assms(1) k show ?thesis
    by (auto simp: decideApproval_def Let_def split: if_splits option.splits)
qed

lemma appendEvent_keeps:
  assumes "appendEvent r sid ev = Inr r'" "rid < length (approvals r)"
  shows "length (approvals r) \<le> length (approvals r') \<and> approvals r' ! rid = approvals r ! rid"
  using assms
  by (auto simp: appendEvent_def nth_append split: option.splits if_splits event_payload.splits)

lemma applyOp_keeps:
  assumes "rid < length (approvals r)" "decisionSlot (approvals r ! rid) \<noteq> Pending"
  shows "rid < length (approvals (applyOp r x)) \<and> approvals (applyOp r x) ! rid = approvals r ! rid"
proof (cases x)
  case (CreateSession wid k)
  with assms show ?thesis by (simp add: applyOp_def createSession_def Let_def)
next
  case (AppendEvent sid ev)
  show ?thesis
  proof (cases "appendEvent r sid ev")
    case (Inl e)
    with AppendEvent assms show ?thesis by (simp add: applyOp_def)
  next
    case (Inr r')
    from appendEvent_keeps [OF Inr assms(1)] AppendEvent Inr assms(1)
    show ?thesis by (simp add: applyOp_def)
  qed
next
  case (DecideApproval k v)
  show ?thesis
  proof (cases "decideApproval r k v")
    case (Inl e)
    with DecideApproval assms show ?thesis by (simp add: applyOp_def)
  next
    case (Inr r')
    from decideApproval_keeps [OF Inr assms] DecideApproval Inr assms(1)
    show ?thesis by (simp add: applyOp_def)
  qed
qed

lemma runOps_keeps:
  "rid < length (approvals r) \<Longrightarrow> decisionSlot (approvals r ! rid) \<noteq> Pending \<Longrightarrow>
   rid < length (approvals (runOps r xs)) \<and> approvals (runOps r xs) ! rid = approvals r ! rid"
  unfolding runOps_def
proof (induction xs arbitrary: r)
  case Nil
  then show ?case by simp
next
  case (Cons x xs)
  from applyOp_keeps [OF Cons.prems, of x]
  have a: "rid < length (approvals (applyOp r x))"
    "approvals (applyOp r x) ! rid = approvals r ! rid" by simp_all
  with Cons.prems(2) have "decisionSlot (approvals (applyOp r x) ! rid) \<noteq> Pending" by simp
  from Cons.IH [OF a(1) this] a(2) show ?case by simp
qed

section \<open>Sequence numbers\<close>

text \<open>
  Claim C1. In every registry reached from the empty one by any sequence of operations on
  any sessions (any interleaving of concurrent sessions, since the registry serialises
  them), the sequence numbers of each session's log, read in order, are 1, 2, ... up to
  the length of the log. Each successful \<open>appendEvent\<close> adds exactly one entry at the end
  of that session's log, numbered with the successor of the last number assigned, and
  leaves every other session as it was; \<open>appendEvent\<close> succeeds on every session that is
  not in a terminal status. On a contiguous log the number assigned is the length plus
  one, so nothing is skipped or reordered.
\<close>

theorem sequence_numbers_contiguous:
  "(sessions (runOps emptyRegistry xs) sid = Some s \<longrightarrow>
      map seq (eventLog s) = [1..<Suc (length (eventLog s))])
   \<and> (appendEvent r sid ev = Inr r' \<longrightarrow>
        (\<exists>s0 s1. sessions r sid = Some s0 \<and> sessions r' sid = Some s1
           \<and> eventLog s1 = eventLog s0 @ [\<lparr>seq = nextSeq (eventLog s0), entryEvent = ev\<rparr>])
        \<and> (\<forall>other. other \<noteq> sid \<longrightarrow> sessions r' other = sessions r other))
   \<and> (sessions r sid = Some s \<and> \<not> isTerminal (status s) \<longrightarrow>
        (\<exists>r1. appendEvent r sid ev = Inr r1))
   \<and> (contiguousFromOne lg \<longrightarrow> nextSeq lg = length lg + 1)"
proof -
  have "allLogsContiguous (runOps emptyRegistry xs)"
    using empty_contiguous by (rule runOps_contiguous)
  then have "sessions (runOps emptyRegistry xs) sid = Some s \<longrightarrow>
      map seq (eventLog s) = [1..<Suc (length (eventLog s))]"
    by (simp add: allLogsContiguous_def contiguousFromOne_def)
  moreover have "appendEvent r sid ev = Inr r' \<longrightarrow>
        (\<exists>s0 s1. sessions r sid = Some s0 \<and> sessions r' sid = Some s1
           \<and> eventLog s1 = eventLog s0 @ [\<lparr>seq = nextSeq (eventLog s0), entryEvent = ev\<rparr>])
        \<and> (\<forall>other. other \<noteq> sid \<longrightarrow> sessions r' other = sessions r other)"
    using appendEvent_effect by blast
  moreover have "sessions r sid = Some s \<and> \<not> isTerminal (status s) \<longrightarrow>
        (\<exists>r1. appendEvent r sid ev = Inr r1)"
    by (simp add: appendEvent_def split: event_payload.splits)
  moreover have "contiguousFromOne lg \<longrightarrow> nextSeq lg = length lg + 1"
    by (simp add: nextSeq_contiguous)
  ultimately show ?thesis by blast
qed

theorem sequence_numbers_contiguous_witness:
  "map_option (map seq \<circ> eventLog) (sessions (runOps emptyRegistry twoSessions) 0) = Some [1, 2, 3]
   \<and> map_option (map seq \<circ> eventLog) (sessions (runOps emptyRegistry twoSessions) 1) = Some [1, 2]
   \<and> (\<exists>r'. appendEvent afterTwo 0 agentText = Inr r'
         \<and> map_option eventLog (sessions r' 0)
             = Some [\<lparr>seq = 1, entryEvent = agentText\<rparr>, \<lparr>seq = 2, entryEvent = agentText\<rparr>])
   \<and> contiguousFromOne [\<lparr>seq = 1, entryEvent = agentText\<rparr>]
   \<and> nextSeq [\<lparr>seq = 1, entryEvent = agentText\<rparr>] = 2"
proof -
  have "map_option (length \<circ> eventLog) (sessions (runOps emptyRegistry twoSessions) 0) = Some 3"
    by code_simp
  then obtain s0 where s0: "sessions (runOps emptyRegistry twoSessions) 0 = Some s0"
    "length (eventLog s0) = 3" by auto
  have "map_option (length \<circ> eventLog) (sessions (runOps emptyRegistry twoSessions) 1) = Some 2"
    by code_simp
  then obtain s1 where s1: "sessions (runOps emptyRegistry twoSessions) 1 = Some s1"
    "length (eventLog s1) = 2" by auto
  have u: "[1..<Suc 3] = [1, 2, 3]" "[1..<Suc 2] = [1, 2]" by code_simp+
  have "isl (appendEvent afterTwo 0 agentText) = False" by code_simp
  then obtain r' where r': "appendEvent afterTwo 0 agentText = Inr r'"
    by (cases "appendEvent afterTwo 0 agentText") simp_all
  have a0: "map_option eventLog (sessions afterTwo 0) = Some [\<lparr>seq = 1, entryEvent = agentText\<rparr>]"
    by code_simp
  have c: "contiguousFromOne [\<lparr>seq = 1, entryEvent = agentText\<rparr>]" by code_simp
  have n: "nextSeq [\<lparr>seq = 1, entryEvent = agentText\<rparr>] = 2" by code_simp
  from sequence_numbers_contiguous [of twoSessions 0 s0] s0 u
  have "map_option (map seq \<circ> eventLog) (sessions (runOps emptyRegistry twoSessions) 0) = Some [1, 2, 3]"
    by simp
  moreover from sequence_numbers_contiguous [of twoSessions 1 s1] s1 u
  have "map_option (map seq \<circ> eventLog) (sessions (runOps emptyRegistry twoSessions) 1) = Some [1, 2]"
    by simp
  moreover from sequence_numbers_contiguous [of "[]" 0 s0 afterTwo agentText r'] r' a0 n
  have "map_option eventLog (sessions r' 0)
             = Some [\<lparr>seq = 1, entryEvent = agentText\<rparr>, \<lparr>seq = 2, entryEvent = agentText\<rparr>]"
    by auto
  ultimately show ?thesis using r' c n by blast
qed

section \<open>Approval decisions\<close>

text \<open>
  Claim C4. Exactly one decision can be applied to an Approval Request. The first
  \<open>decideApproval\<close> on a pending request succeeds and sets its slot to approved or denied.
  Any later decision on that request, directly or after any further operations, fails
  with \<open>AlreadyResolved\<close>, and the recorded decision stays what the first call made it.
\<close>

theorem one_decision_only:
  "rid < length (approvals r) \<and> decisionSlot (approvals r ! rid) = Pending \<longrightarrow>
     (\<exists>r'. decideApproval r rid v = Inr r'
        \<and> decisionSlot (approvals r' ! rid) = slotOf v
        \<and> (slotOf v = Approved \<or> slotOf v = Denied)
        \<and> decideApproval r' rid v' = Inl AlreadyResolved
        \<and> (\<forall>xs. decideApproval (runOps r' xs) rid v' = Inl AlreadyResolved
              \<and> decisionSlot (approvals (runOps r' xs) ! rid) = slotOf v))"
proof
  assume h: "rid < length (approvals r) \<and> decisionSlot (approvals r ! rid) = Pending"
  then obtain r' where r': "decideApproval r rid v = Inr r'"
    "length (approvals r') = length (approvals r)"
    "decisionSlot (approvals r' ! rid) = slotOf v"
    using decideApproval_pending by blast
  from r' h have b: "rid < length (approvals r')" "decisionSlot (approvals r' ! rid) \<noteq> Pending"
    by (simp_all add: slotOf_resolved)
  have "slotOf v = Approved \<or> slotOf v = Denied" by (cases v) (simp_all add: slotOf_def)
  moreover have "decideApproval r' rid v' = Inl AlreadyResolved"
    using b by (rule decideApproval_resolved)
  moreover have "\<forall>xs. decideApproval (runOps r' xs) rid v' = Inl AlreadyResolved
              \<and> decisionSlot (approvals (runOps r' xs) ! rid) = slotOf v"
  proof
    fix xs
    from runOps_keeps [OF b, of xs]
    have k: "rid < length (approvals (runOps r' xs))"
      "approvals (runOps r' xs) ! rid = approvals r' ! rid" by simp_all
    with b(2) have "decisionSlot (approvals (runOps r' xs) ! rid) \<noteq> Pending" by simp
    with k(1) have "decideApproval (runOps r' xs) rid v' = Inl AlreadyResolved"
      by (rule decideApproval_resolved)
    with k(2) r'(3) show "decideApproval (runOps r' xs) rid v' = Inl AlreadyResolved
              \<and> decisionSlot (approvals (runOps r' xs) ! rid) = slotOf v" by simp
  qed
  ultimately show "\<exists>r'. decideApproval r rid v = Inr r'
        \<and> decisionSlot (approvals r' ! rid) = slotOf v
        \<and> (slotOf v = Approved \<or> slotOf v = Denied)
        \<and> decideApproval r' rid v' = Inl AlreadyResolved
        \<and> (\<forall>xs. decideApproval (runOps r' xs) rid v' = Inl AlreadyResolved
              \<and> decisionSlot (approvals (runOps r' xs) ! rid) = slotOf v)"
    using r'(1,3) by blast
qed

theorem one_decision_only_witness:
  "0 < length (approvals awaiting) \<and> decisionSlot (approvals awaiting ! 0) = Pending
   \<and> (\<exists>r'. decideApproval awaiting 0 Deny = Inr r'
         \<and> decisionSlot (approvals r' ! 0) = Denied
         \<and> decideApproval r' 0 Approve = Inl AlreadyResolved
         \<and> decideApproval (runOps r' [AppendEvent 0 agentText, CreateSession 8 LocalProcess]) 0 Approve
             = Inl AlreadyResolved
         \<and> decisionSlot (approvals (runOps r' [AppendEvent 0 agentText, CreateSession 8 LocalProcess]) ! 0)
             = Denied)"
proof -
  have a: "0 < length (approvals awaiting)" by code_simp
  have b: "decisionSlot (approvals awaiting ! 0) = Pending" by code_simp
  have c: "slotOf Deny = Denied" by (simp add: slotOf_def)
  from one_decision_only [of 0 awaiting Deny Approve] a b c show ?thesis by auto
qed

text \<open>
  Claim C5. When the pending request of a session in awaiting-approval is resolved with
  denied, the call succeeds, the session's status returns to running (which is not a
  terminal status), and its log gains exactly one entry at the end, the denial event, with
  the next sequence number.
\<close>

theorem denied_returns_to_running:
  "sessions r sid = Some s \<and> status s = AwaitingApproval \<and> rid < length (approvals r)
     \<and> requestSession (approvals r ! rid) = sid \<and> decisionSlot (approvals r ! rid) = Pending \<longrightarrow>
     (\<exists>r' s'. decideApproval r rid Deny = Inr r' \<and> sessions r' sid = Some s'
        \<and> status s' = Running \<and> \<not> isTerminal (status s')
        \<and> eventLog s' = eventLog s @
             [\<lparr>seq = nextSeq (eventLog s),
               entryEvent = denialEvent (proposedAction (approvals r ! rid))\<rparr>]
        \<and> workspaceId s' = workspaceId s \<and> sessionKind s' = sessionKind s
        \<and> decisionSlot (approvals r' ! rid) = Denied)"
  by (auto simp: decideApproval_def Let_def appendEntry_def isTerminal_def slotOf_def)

theorem denied_returns_to_running_witness:
  "sessions awaiting 0 = Some \<lparr>workspaceId = 7, sessionKind = Remote, status = AwaitingApproval,
       eventLog = [\<lparr>seq = 1, entryEvent = gatedWrite\<rparr>]\<rparr>
   \<and> approvals awaiting = [\<lparr>requestSession = 0, proposedAction = ''write file'',
       decisionSlot = Pending\<rparr>]
   \<and> (\<exists>r'. decideApproval awaiting 0 Deny = Inr r'
         \<and> sessions r' 0 = Some \<lparr>workspaceId = 7, sessionKind = Remote, status = Running,
              eventLog = [\<lparr>seq = 1, entryEvent = gatedWrite\<rparr>,
                          \<lparr>seq = 2, entryEvent = denialEvent ''write file''\<rparr>]\<rparr>
         \<and> decisionSlot (approvals r' ! 0) = Denied)"
proof -
  let ?s = "\<lparr>workspaceId = 7, sessionKind = Remote, status = AwaitingApproval,
       eventLog = [\<lparr>seq = 1, entryEvent = gatedWrite\<rparr>]\<rparr>"
  have a: "sessions awaiting 0 = Some ?s" by code_simp
  have b: "approvals awaiting = [\<lparr>requestSession = 0, proposedAction = ''write file'',
       decisionSlot = Pending\<rparr>]" by code_simp
  from denied_returns_to_running [of awaiting 0 ?s 0] a b
  obtain r' s' where r': "decideApproval awaiting 0 Deny = Inr r'" "sessions r' 0 = Some s'"
    "status s' = Running"
    "eventLog s' = [\<lparr>seq = 1, entryEvent = gatedWrite\<rparr>,
                          \<lparr>seq = 2, entryEvent = denialEvent ''write file''\<rparr>]"
    "workspaceId s' = 7" "sessionKind s' = Remote" "decisionSlot (approvals r' ! 0) = Denied"
    by (auto simp: nextSeq_def)
  then have "s' = \<lparr>workspaceId = 7, sessionKind = Remote, status = Running,
              eventLog = [\<lparr>seq = 1, entryEvent = gatedWrite\<rparr>,
                          \<lparr>seq = 2, entryEvent = denialEvent ''write file''\<rparr>]\<rparr>"
    by (cases s') simp
  with r' a b show ?thesis by blast
qed

end
